theory Spec2Isabelle
  imports Complex_Main
begin

section \<open>Python strings over the Latin-1 code points\<close>

text \<open>
  A Python \<open>str\<close> is a sequence of code points. The model takes the code points
  0 to 255, one \<^typ>\<open>char\<close> each, and classifies them as Python's Unicode tables do
  in that range, so \<open>length\<close> is Python's \<open>len\<close>.
\<close>

definition isspace :: "char \<Rightarrow> bool" where
  \<comment> \<open>\<open>str.isspace\<close> and the regex class \<open>\s\<close>: TAB to CR, FS to US, space, NEL, NBSP.\<close>
  "isspace c = (let n = (of_char c :: nat) in
      (9 \<le> n \<and> n \<le> 13) \<or> (28 \<le> n \<and> n \<le> 32) \<or> n = 133 \<or> n = 160)"

definition isalnum :: "char \<Rightarrow> bool" where
  \<comment> \<open>\<open>str.isalnum\<close>: letters and numeric characters of Latin-1.\<close>
  "isalnum c = (let n = (of_char c :: nat) in
      (48 \<le> n \<and> n \<le> 57) \<or> (65 \<le> n \<and> n \<le> 90) \<or> (97 \<le> n \<and> n \<le> 122) \<or>
      n = 170 \<or> n = 178 \<or> n = 179 \<or> n = 181 \<or> n = 185 \<or> n = 186 \<or>
      (188 \<le> n \<and> n \<le> 190) \<or> (192 \<le> n \<and> n \<le> 214) \<or>
      (216 \<le> n \<and> n \<le> 246) \<or> (248 \<le> n \<and> n \<le> 255))"

definition is_word :: "char \<Rightarrow> bool" where
  \<comment> \<open>the regex class \<open>\w\<close>: alphanumeric or underscore.\<close>
  "is_word c = (isalnum c \<or> c = CHR ''_'')"

definition lower_char :: "char \<Rightarrow> char" where
  \<comment> \<open>\<open>str.lower\<close> on one code point: A-Z and the capital letters 0xC0-0xDE but 0xD7.\<close>
  "lower_char c = (let n = (of_char c :: nat) in
      if (65 \<le> n \<and> n \<le> 90) \<or> (192 \<le> n \<and> n \<le> 214) \<or> (216 \<le> n \<and> n \<le> 222)
      then char_of (n + 32) else c)"

definition lower :: "string \<Rightarrow> string" where
  "lower s = map lower_char s"

definition lstrip :: "string \<Rightarrow> string" where
  "lstrip s = dropWhile isspace s"

definition rstrip :: "string \<Rightarrow> string" where
  "rstrip s = rev (dropWhile isspace (rev s))"

definition strip :: "string \<Rightarrow> string" where
  \<comment> \<open>\<open>str.strip()\<close> with no argument.\<close>
  "strip s = rstrip (lstrip s)"

fun split_from :: "string \<Rightarrow> string \<Rightarrow> string list" where
  \<comment> \<open>the scan of \<open>str.split()\<close>; \<open>cur\<close> is the word read so far.\<close>
  "split_from cur [] = (if cur = [] then [] else [cur])"
| "split_from cur (c # cs) =
     (if isspace c then (if cur = [] then split_from [] cs else cur # split_from [] cs)
      else split_from (cur @ [c]) cs)"

definition split_ws :: "string \<Rightarrow> string list" where
  \<comment> \<open>\<open>str.split()\<close> with no argument: the maximal runs of non-whitespace.\<close>
  "split_ws s = split_from [] s"

fun join :: "string \<Rightarrow> string list \<Rightarrow> string" where
  \<comment> \<open>\<open>sep.join(ws)\<close>\<close>
  "join sep [] = []"
| "join sep [w] = w"
| "join sep (w # ws) = w @ sep @ join sep ws"

definition startswith :: "string \<Rightarrow> string \<Rightarrow> bool" where
  "startswith s p = (take (length p) s = p)"

fun str_contains :: "string \<Rightarrow> string \<Rightarrow> bool" where
  \<comment> \<open>\<open>sub in s\<close>: \<open>sub\<close> starts at some position of \<open>s\<close>.\<close>
  "str_contains [] sub = (sub = [])"
| "str_contains (c # cs) sub = (startswith (c # cs) sub \<or> str_contains cs sub)"

fun split_on_from :: "char \<Rightarrow> string \<Rightarrow> string \<Rightarrow> string list" where
  "split_on_from sep cur [] = [cur]"
| "split_on_from sep cur (c # cs) =
     (if c = sep then cur # split_on_from sep [] cs else split_on_from sep (cur @ [c]) cs)"

definition split_on :: "char \<Rightarrow> string \<Rightarrow> string list" where
  \<comment> \<open>\<open>s.split(sep)\<close> for a separator of one character.\<close>
  "split_on sep s = split_on_from sep [] s"

definition split_max1 :: "char \<Rightarrow> string \<Rightarrow> string list" where
  \<comment> \<open>\<open>s.split(sep, 1)\<close>: split at the first separator only.\<close>
  "split_max1 sep s =
     (if sep \<in> set s
      then [takeWhile (\<lambda>c. c \<noteq> sep) s, tl (dropWhile (\<lambda>c. c \<noteq> sep) s)]
      else [s])"

definition is_linebreak :: "char \<Rightarrow> bool" where
  \<comment> \<open>the line boundaries of \<open>str.splitlines\<close>: LF, VT, FF, CR, FS, GS, RS, NEL.\<close>
  "is_linebreak c = (let n = (of_char c :: nat) in
      (10 \<le> n \<and> n \<le> 13) \<or> (28 \<le> n \<and> n \<le> 30) \<or> n = 133)"

fun splitlines_from :: "string \<Rightarrow> string \<Rightarrow> string list" where
  \<comment> \<open>the scan of \<open>str.splitlines()\<close>: CR LF is one boundary, no empty last line.\<close>
  "splitlines_from cur [] = (if cur = [] then [] else [cur])"
| "splitlines_from cur [c] = (if is_linebreak c then [cur] else [cur @ [c]])"
| "splitlines_from cur (c # d # cs) =
     (if c = CHR 0x0D \<and> d = CHR 0x0A then cur # splitlines_from [] cs
      else if is_linebreak c then cur # splitlines_from [] (d # cs)
      else splitlines_from (cur @ [c]) (d # cs))"

definition splitlines :: "string \<Rightarrow> string list" where
  "splitlines s = splitlines_from [] s"

section \<open>Python lists, ranges and exceptions\<close>

datatype py_error =
    ValueError string
  | IndexError string
  | ModelError string  \<comment> \<open>whatever the generative model's client raises\<close>

fun str_of_error :: "py_error \<Rightarrow> string" where
  \<comment> \<open>\<open>str(e)\<close>\<close>
  "str_of_error (ValueError m) = m"
| "str_of_error (IndexError m) = m"
| "str_of_error (ModelError m) = m"

definition py_index :: "'a list \<Rightarrow> nat \<Rightarrow> py_error + 'a" where
  \<comment> \<open>\<open>xs[i]\<close> for a literal index \<open>i \<ge> 0\<close>\<close>
  "py_index xs i =
     (if i < length xs then Inr (xs ! i) else Inl (IndexError ''list index out of range''))"

definition is_digit :: "char \<Rightarrow> bool" where
  "is_digit c = (c \<in> set ''0123456789'')"

definition digit_val :: "char \<Rightarrow> int" where
  "digit_val c = int (of_char c) - 48"

fun valid_digits :: "string \<Rightarrow> bool" where
  \<comment> \<open>decimal digits, with single underscores between digits allowed.\<close>
  "valid_digits [] = False"
| "valid_digits [c] = is_digit c"
| "valid_digits (c # d # cs) =
     (is_digit c \<and> (if d = CHR ''_'' then valid_digits cs else valid_digits (d # cs)))"

definition digits_value :: "string \<Rightarrow> int" where
  "digits_value s = foldl (\<lambda>acc c. 10 * acc + digit_val c) 0 (filter is_digit s)"

definition is_int_space :: "char \<Rightarrow> bool" where
  \<comment> \<open>the whitespace that \<open>int()\<close> strips: TAB to CR, space, NEL, NBSP, but not FS to US.\<close>
  "is_int_space c = (let n = (of_char c :: nat) in
      (9 \<le> n \<and> n \<le> 13) \<or> n = 32 \<or> n = 133 \<or> n = 160)"

definition py_int :: "string \<Rightarrow> py_error + int" where
  \<comment> \<open>\<open>int(s)\<close>: surrounding whitespace, an optional sign, decimal digits; CPython from
      3.11 on also refuses more than 4300 digits.\<close>
  "py_int s =
     (let t = rev (dropWhile is_int_space (rev (dropWhile is_int_space s)));
          neg = (t \<noteq> [] \<and> hd t = CHR ''-'');
          body = (if t \<noteq> [] \<and> (hd t = CHR ''-'' \<or> hd t = CHR ''+'') then tl t else t)
      in if \<not> valid_digits body
         then Inl (ValueError (''invalid literal for int() with base 10: '' @ s))
         else if length (filter is_digit body) > 4300
         then Inl (ValueError ''Exceeds the limit (4300 digits) for integer string conversion'')
         else Inr (if neg then - digits_value body else digits_value body))"

definition slice_index :: "nat \<Rightarrow> int \<Rightarrow> nat" where
  \<comment> \<open>a slice bound: negative bounds count from the end, all bounds are clamped.\<close>
  "slice_index n i = (if i < 0 then nat (max 0 (i + int n)) else min (nat i) n)"

definition py_slice :: "'a list \<Rightarrow> int \<Rightarrow> int \<Rightarrow> 'a list" where
  \<comment> \<open>\<open>xs[i:j]\<close>\<close>
  "py_slice xs i j =
     (let a = slice_index (length xs) i; b = slice_index (length xs) j
      in take (b - a) (drop a xs))"

definition py_slice_to :: "'a list \<Rightarrow> int \<Rightarrow> 'a list" where
  \<comment> \<open>\<open>xs[:j]\<close>\<close>
  "py_slice_to xs j = take (slice_index (length xs) j) xs"

definition py_range :: "int \<Rightarrow> int \<Rightarrow> int \<Rightarrow> py_error + int list" where
  \<comment> \<open>the values of \<open>range(start, stop, step)\<close>, in order.\<close>
  "py_range start stop step =
     (if step = 0 then Inl (ValueError ''range() arg 3 must not be zero'')
      else if 0 < step
      then Inr (map (\<lambda>k. start + int k * step) [0..<nat ((stop - start + step - 1) div step)])
      else Inr (map (\<lambda>k. start + int k * step) [0..<nat ((start - stop - step - 1) div (- step))]))"

section \<open>\<open>utils/text_utils.py\<close>\<close>

subsection \<open>\<open>clean_text\<close>\<close>

function collapse_ws :: "string \<Rightarrow> string" where
  \<comment> \<open>\<open>re.sub(r'\s+', ' ', s)\<close>: every maximal run of whitespace becomes one space.\<close>
  "collapse_ws [] = []"
| "collapse_ws (c # cs) =
     (if isspace c then CHR '' '' # collapse_ws (dropWhile isspace cs)
      else c # collapse_ws cs)"
  by pat_completeness auto
termination
  by (relation "measure length") (auto simp: less_Suc_eq_le length_dropWhile_le)

definition allowed_char :: "char \<Rightarrow> bool" where
  \<comment> \<open>the complement of the class \<open>[^\w\s\.\,\!\?\;\:\-\(\)]\<close>.\<close>
  "allowed_char c = (is_word c \<or> isspace c \<or> c \<in> set ''.,!?;:-()'')"

definition clean_text :: "string \<Rightarrow> string" where
  "clean_text text =
     (let text1 = collapse_ws (strip text);
          text2 = filter allowed_char text1
      in text2)"

subsection \<open>\<open>chunk_text\<close>\<close>

fun chunk_loop :: "string list \<Rightarrow> int \<Rightarrow> string list \<Rightarrow> int list \<Rightarrow> string list" where
  \<comment> \<open>the \<open>for\<close> loop over the range, with its \<open>break\<close>; \<open>chunks\<close> is the list built so far.\<close>
  "chunk_loop words max_chunk_size chunks [] = chunks"
| "chunk_loop words max_chunk_size chunks (i # rest) =
     (let chunk = join '' '' (py_slice words i (i + max_chunk_size));
          chunks' = chunks @ [chunk]
      in if i + max_chunk_size \<ge> int (length words) then chunks'
         else chunk_loop words max_chunk_size chunks' rest)"

definition chunk_text :: "string \<Rightarrow> int \<Rightarrow> int \<Rightarrow> py_error + string list" where
  "chunk_text text max_chunk_size overlap =
     (let words = split_ws text
      in case py_range 0 (int (length words)) (max_chunk_size - overlap) of
           Inl e \<Rightarrow> Inl e
         | Inr indices \<Rightarrow> Inr (chunk_loop words max_chunk_size [] indices))"

definition remove_overlaps :: "nat \<Rightarrow> string list \<Rightarrow> string list" where
  \<comment> \<open>the word sequences of the chunks, concatenated, with the first \<open>overlap\<close> words
      of every chunk but the first removed.\<close>
  "remove_overlaps overlap chunks =
     (case chunks of
        [] \<Rightarrow> []
      | c # cs \<Rightarrow> split_ws c @ concat (map (\<lambda>d. drop overlap (split_ws d)) cs))"

subsection \<open>\<open>extract_key_sentences\<close>\<close>

definition is_terminal :: "char \<Rightarrow> bool" where
  \<comment> \<open>the class \<open>[.!?]\<close>\<close>
  "is_terminal c = (c \<in> set ''.!?'')"

function re_split_from :: "string \<Rightarrow> string \<Rightarrow> string list" where
  \<comment> \<open>the scan of \<open>re.split(r'[.!?]+', text)\<close>: the pieces between the runs of
      terminal punctuation, empty pieces kept.\<close>
  "re_split_from cur [] = [cur]"
| "re_split_from cur (c # cs) =
     (if is_terminal c then cur # re_split_from [] (dropWhile is_terminal cs)
      else re_split_from (cur @ [c]) cs)"
  by pat_completeness auto
termination
  by (relation "measure (\<lambda>(cur, s). length s)") (auto simp: less_Suc_eq_le length_dropWhile_le)

definition important_words :: "string list" where
  "important_words =
     [''conclusion'', ''result'', ''finding'', ''important'', ''significant'', ''main'', ''key'']"

definition sentence_score :: "string \<Rightarrow> nat" where
  \<comment> \<open>\<open>sum(1 for word in important_words if word.lower() in sentence.lower())\<close>\<close>
  "sentence_score sentence =
     length (filter (\<lambda>word. str_contains (lower sentence) (lower word)) important_words)"

definition sentence_key :: "nat \<times> string \<Rightarrow> nat \<times> nat" where
  \<comment> \<open>\<open>lambda x: (x[0], len(x[1]))\<close>\<close>
  "sentence_key x = (fst x, length (snd x))"

definition tuple_less :: "nat \<times> nat \<Rightarrow> nat \<times> nat \<Rightarrow> bool" where
  \<comment> \<open>Python's \<open><\<close> on pairs\<close>
  "tuple_less a b = (fst a < fst b \<or> (fst a = fst b \<and> snd a < snd b))"

fun insert_reverse :: "nat \<times> string \<Rightarrow> (nat \<times> string) list \<Rightarrow> (nat \<times> string) list" where
  "insert_reverse x [] = [x]"
| "insert_reverse x (y # ys) =
     (if tuple_less (sentence_key x) (sentence_key y) then y # insert_reverse x ys else x # y # ys)"

definition sort_reverse :: "(nat \<times> string) list \<Rightarrow> (nat \<times> string) list" where
  \<comment> \<open>\<open>list.sort(key=..., reverse=True)\<close>: descending by key, and stable, so elements
      with equal keys keep their order; that fixes the result, computed here by insertion.\<close>
  "sort_reverse xs = foldr insert_reverse xs []"

definition key_sentences :: "string \<Rightarrow> string list" where
  \<comment> \<open>\<open>[s.strip() for s in sentences if len(s.strip()) > 20]\<close>\<close>
  "key_sentences text =
     map strip (filter (\<lambda>s. length (strip s) > 20) (re_split_from [] text))"

definition scored_sentences :: "string \<Rightarrow> (nat \<times> string) list" where
  "scored_sentences text = map (\<lambda>sentence. (sentence_score sentence, sentence)) (key_sentences text)"

definition extract_key_sentences :: "string \<Rightarrow> int \<Rightarrow> string list" where
  "extract_key_sentences text num_sentences =
     map snd (py_slice_to (sort_reverse (scored_sentences text)) num_sentences)"

fun count_occurrences :: "string \<Rightarrow> string \<Rightarrow> nat" where
  \<comment> \<open>the number of positions of \<open>s\<close> at which \<open>sub\<close> starts.\<close>
  "count_occurrences [] sub = (if sub = [] then 1 else 0)"
| "count_occurrences (c # cs) sub =
     (if startswith (c # cs) sub then 1 else 0) + count_occurrences cs sub"

definition occurrence_score :: "string \<Rightarrow> nat" where
  \<comment> \<open>the score as the specification words it: the case-insensitive occurrences of the
      vocabulary's terms in the sentence, every occurrence counted.\<close>
  "occurrence_score sentence =
     sum_list (map (\<lambda>word. count_occurrences (lower sentence) (lower word)) important_words)"

section \<open>The generative model\<close>

text \<open>
  The model is a parameter: \<open>generate_content\<close> takes the prompt and the generation
  options and either raises or returns a response, whose \<open>text\<close> may be absent.
\<close>

record generation_config =
  max_output_tokens :: int
  temperature :: rat

type_synonym model = "string \<Rightarrow> generation_config \<Rightarrow> py_error + string option"

definition text_or_empty :: "string option \<Rightarrow> string" where
  \<comment> \<open>\<open>response.text or ""\<close>\<close>
  "text_or_empty t = (case t of None \<Rightarrow> [] | Some v \<Rightarrow> v)"

section \<open>\<open>core/ai_assistant.py\<close>\<close>

record parsed_answer =
  answer :: string
  reference :: string
  confidence :: rat

record exchange =
  h_question :: string
  h_answer :: string
  h_reference :: string

record ai_assistant =
  conversation_history :: "exchange list"

definition word_set :: "string \<Rightarrow> string set" where
  \<comment> \<open>\<open>set(s.lower().split())\<close>\<close>
  "word_set s = set (split_ws (lower s))"

fun best_loop :: "string set \<Rightarrow> string \<times> nat \<Rightarrow> string list \<Rightarrow> string \<times> nat" where
  \<comment> \<open>the scan, on the pair \<open>(best_chunk, best_score)\<close>\<close>
  "best_loop question_words (best_chunk, best_score) [] = (best_chunk, best_score)"
| "best_loop question_words (best_chunk, best_score) (chunk # rest) =
     (let overlap = card (question_words \<inter> word_set chunk)
      in if overlap > best_score then best_loop question_words (chunk, overlap) rest
         else best_loop question_words (best_chunk, best_score) rest)"

definition find_relevant_chunk :: "string \<Rightarrow> string list \<Rightarrow> py_error + string" where
  "find_relevant_chunk question chunks =
     (let question_words = word_set question
      in case py_index chunks 0 of
           Inl e \<Rightarrow> Inl e
         | Inr first \<Rightarrow> Inr (fst (best_loop question_words (first, 0) chunks)))"

fun parse_answer_loop :: "parsed_answer \<Rightarrow> string list \<Rightarrow> py_error + parsed_answer" where
  "parse_answer_loop result [] = Inr result"
| "parse_answer_loop result (line # rest) =
     (if startswith line ''Answer:'' then
        (case py_index (split_max1 CHR '':'' line) 1 of
           Inl e \<Rightarrow> Inl e
         | Inr v \<Rightarrow> parse_answer_loop (result\<lparr>answer := strip v\<rparr>) rest)
      else if startswith line ''Reference:'' then
        (case py_index (split_max1 CHR '':'' line) 1 of
           Inl e \<Rightarrow> Inl e
         | Inr v \<Rightarrow> parse_answer_loop (result\<lparr>reference := strip v\<rparr>) rest)
      else parse_answer_loop result rest)"

definition parse_answer :: "string \<Rightarrow> py_error + parsed_answer" where
  "parse_answer answer_text =
     (case parse_answer_loop \<lparr>answer = [], reference = [], confidence = 8 / 10\<rparr>
             (splitlines answer_text) of
        Inl e \<Rightarrow> Inl e
      | Inr result \<Rightarrow>
          Inr (if answer result = []
               then result\<lparr>answer := strip answer_text,
                           reference := ''General document content''\<rparr>
               else result))"

definition answer_prompt :: "string \<Rightarrow> string \<Rightarrow> string" where
  "answer_prompt best_chunk question =
     ''\<newline>'' @
     ''            Based ONLY on the following document content, answer the user's question.\<newline>'' @
     ''\<newline>'' @
     ''            Document content: '' @
     best_chunk @
     ''\<newline>'' @
     ''\<newline>'' @
     ''            Question: '' @
     question @
     ''\<newline>'' @
     ''\<newline>'' @
     ''            Instructions:\<newline>'' @
     ''            1. Answer only based on the provided document content\<newline>'' @
     ''            2. If the answer isn't in the document, say '' @
     [CHR 0x22] @
     ''The document doesn't contain information to answer this question'' @
     [CHR 0x22] @
     ''\<newline>'' @
     ''            3. Provide the specific section/paragraph reference that supports your answer\<newline>'' @
     ''            4. Be accurate and don't make assumptions beyond what's stated\<newline>'' @
     ''\<newline>'' @
     ''            Format your response as:\<newline>'' @
     ''            Answer: [Your answer]\<newline>'' @
     ''            Reference: [Specific location in document that supports this answer]\<newline>'' @
     ''            ''"

definition answer_config :: generation_config where
  \<comment> \<open>\<open>settings.MAX_TOKENS\<close> and \<open>settings.TEMPERATURE\<close>\<close>
  "answer_config = \<lparr>max_output_tokens = 1000, temperature = 3 / 10\<rparr>"

definition answer_steps :: "model \<Rightarrow> string \<Rightarrow> string \<Rightarrow> py_error + parsed_answer" where
  \<comment> \<open>the body of the \<open>try\<close> up to the parse; the first exception ends it.\<close>
  "answer_steps generate_content question document_text =
     (case chunk_text document_text 1500 150 of
        Inl e \<Rightarrow> Inl e
      | Inr chunks \<Rightarrow>
     (case find_relevant_chunk question chunks of
        Inl e \<Rightarrow> Inl e
      | Inr best_chunk \<Rightarrow>
     (case generate_content (answer_prompt best_chunk question) answer_config of
        Inl e \<Rightarrow> Inl e
      | Inr response_text \<Rightarrow> parse_answer (text_or_empty response_text))))"

definition answer_question ::
  "model \<Rightarrow> ai_assistant \<Rightarrow> string \<Rightarrow> string \<Rightarrow> parsed_answer \<times> ai_assistant" where
  \<comment> \<open>returns the record and the assistant with its history after the call.\<close>
  "answer_question generate_content self question document_text =
     (case answer_steps generate_content question document_text of
        Inr parsed \<Rightarrow>
          (parsed,
           self\<lparr>conversation_history := conversation_history self @
              [\<lparr>h_question = question, h_answer = answer parsed,
                h_reference = reference parsed\<rparr>]\<rparr>)
      | Inl e \<Rightarrow>
          (\<lparr>answer = ''Error processing question: '' @ str_of_error e,
            reference = ''System error'', confidence = 0\<rparr>,
           self))"

section \<open>\<open>core/question_generator.py\<close>\<close>

record challenge_question =
  question :: string
  expected_answer :: string
  type :: string

definition question_types :: "string list" where
  "question_types = [''comprehension'', ''inference'', ''analysis'', ''evaluation'']"

definition random_choice :: "(nat \<Rightarrow> nat) \<Rightarrow> nat \<Rightarrow> 'a list \<Rightarrow> 'a" where
  \<comment> \<open>\<open>random.choice\<close> on a non-empty list; \<open>rnd k\<close> is the generator's \<open>k\<close>-th draw.\<close>
  "random_choice rnd k xs = xs ! (rnd k mod length xs)"

definition create_question_prompt :: "string \<Rightarrow> string" where
  "create_question_prompt document_text =
     (let text_excerpt = py_slice_to document_text 2000
      in ''\<newline>'' @
        ''        Based on the following document, generate exactly 3 challenging questions that test comprehension, inference, and analysis.\<newline>'' @
        ''        \<newline>'' @
        ''        Document: '' @
        text_excerpt @
        ''\<newline>'' @
        ''        \<newline>'' @
        ''        Create questions that:\<newline>'' @
        ''        1. Require understanding of key concepts\<newline>'' @
        ''        2. Test ability to make inferences\<newline>'' @
        ''        3. Analyze relationships between ideas\<newline>'' @
        ''        \<newline>'' @
        ''        Format each question as:\<newline>'' @
        ''        Q1: [Question]\<newline>'' @
        ''        A1: [Expected answer based on document]\<newline>'' @
        ''        \<newline>'' @
        ''        Q2: [Question]\<newline>'' @
        ''        A2: [Expected answer based on document]\<newline>'' @
        ''        \<newline>'' @
        ''        Q3: [Question]\<newline>'' @
        ''        A3: [Expected answer based on document]\<newline>'' @
        ''        '')"

record parse_state =
  questions :: "challenge_question list"
  current_q :: "string option"
  current_a :: "string option"
  draws :: nat

definition add_question :: "(nat \<Rightarrow> nat) \<Rightarrow> parse_state \<Rightarrow> parse_state" where
  \<comment> \<open>\<open>if current_q and current_a: questions.append(...)\<close>; \<open>None\<close> and the empty
      string are both false.\<close>
  "add_question rnd st =
     (case (current_q st, current_a st) of
        (Some q, Some a) \<Rightarrow>
          if q \<noteq> [] \<and> a \<noteq> []
          then st\<lparr>questions := questions st @
                   [\<lparr>question = q, expected_answer = a,
                     type = random_choice rnd (draws st) question_types\<rparr>],
                  draws := Suc (draws st)\<rparr>
          else st
      | _ \<Rightarrow> st)"

definition truthy :: "string option \<Rightarrow> bool" where
  "truthy v = (case v of None \<Rightarrow> False | Some s \<Rightarrow> s \<noteq> [])"

fun parse_questions_loop ::
  "(nat \<Rightarrow> nat) \<Rightarrow> parse_state \<Rightarrow> string list \<Rightarrow> py_error + parse_state" where
  "parse_questions_loop rnd st [] = Inr st"
| "parse_questions_loop rnd st (raw # rest) =
     (let line = strip raw in
      if startswith line ''Q'' \<and> CHR '':'' \<in> set line then
        (let st1 = add_question rnd st in
         case py_index (split_max1 CHR '':'' line) 1 of
           Inl e \<Rightarrow> Inl e
         | Inr v \<Rightarrow>
             parse_questions_loop rnd (st1\<lparr>current_q := Some (strip v), current_a := None\<rparr>) rest)
      else if startswith line ''A'' \<and> CHR '':'' \<in> set line \<and> truthy (current_q st) then
        (case py_index (split_max1 CHR '':'' line) 1 of
           Inl e \<Rightarrow> Inl e
         | Inr v \<Rightarrow> parse_questions_loop rnd (st\<lparr>current_a := Some (strip v)\<rparr>) rest)
      else parse_questions_loop rnd st rest)"

definition parse_questions :: "(nat \<Rightarrow> nat) \<Rightarrow> string \<Rightarrow> py_error + challenge_question list" where
  "parse_questions rnd questions_text =
     (let lines = split_on CHR 0x0A (strip questions_text)
      in case parse_questions_loop rnd
                \<lparr>questions = [], current_q = None, current_a = None, draws = 0\<rparr> lines of
           Inl e \<Rightarrow> Inl e
         | Inr st \<Rightarrow> Inr (py_slice_to (questions (add_question rnd st)) 3))"

definition generate_fallback_questions :: "string \<Rightarrow> challenge_question list" where
  "generate_fallback_questions document_text =
     [\<lparr>question = ''What are the main topics discussed in this document?'',
       expected_answer = ''Based on the document content, identify key themes and subjects.'',
       type = ''comprehension''\<rparr>,
      \<lparr>question = ''What conclusions can be drawn from the information presented?'',
       expected_answer = ''Analyze the evidence and reasoning to identify logical conclusions.'',
       type = ''inference''\<rparr>,
      \<lparr>question = ''How do the different sections of this document relate to each other?'',
       expected_answer = ''Examine the structure and connections between different parts.'',
       type = ''analysis''\<rparr>]"

definition question_config :: generation_config where
  "question_config = \<lparr>max_output_tokens = 800, temperature = 5 / 10\<rparr>"

definition generate_challenge_questions ::
  "model \<Rightarrow> (nat \<Rightarrow> nat) \<Rightarrow> string \<Rightarrow> challenge_question list" where
  \<comment> \<open>every exception of the \<open>try\<close> body leads to the fallback questions; the
      \<open>print\<close> of the handler is not modelled.\<close>
  "generate_challenge_questions generate_content rnd document_text =
     (case generate_content (create_question_prompt document_text) question_config of
        Inl e \<Rightarrow> generate_fallback_questions document_text
      | Inr response_text \<Rightarrow>
          (case parse_questions rnd (text_or_empty response_text) of
             Inl e \<Rightarrow> generate_fallback_questions document_text
           | Inr parsed \<Rightarrow> parsed))"

definition parse_score :: "string \<Rightarrow> py_error + int" where
  \<comment> \<open>the body of the \<open>try\<close> of the \<open>Score:\<close> branch.\<close>
  "parse_score line =
     (case py_index (split_on CHR '':'' line) 1 of
        Inl e \<Rightarrow> Inl e
      | Inr t \<Rightarrow>
     (let score_text = strip t in
      case py_index (split_on CHR ''/'' score_text) 0 of
        Inl e \<Rightarrow> Inl e
      | Inr d \<Rightarrow>
     (case py_int d of
        Inl e \<Rightarrow> Inl e
      | Inr score \<Rightarrow> Inr (max 1 (min 5 score)))))"

record evaluation =
  score :: int
  feedback :: string
  justification :: string

fun parse_evaluation_loop :: "evaluation \<Rightarrow> string list \<Rightarrow> py_error + evaluation" where
  "parse_evaluation_loop result [] = Inr result"
| "parse_evaluation_loop result (raw # rest) =
     (let line = strip raw in
      if startswith line ''Score:'' then
        (case parse_score line of
           Inr v \<Rightarrow> parse_evaluation_loop (result\<lparr>score := v\<rparr>) rest
         | Inl (ValueError m) \<Rightarrow> parse_evaluation_loop result rest
         | Inl (IndexError m) \<Rightarrow> parse_evaluation_loop result rest
         | Inl e \<Rightarrow> Inl e)
      else if startswith line ''Feedback:'' then
        (case py_index (split_max1 CHR '':'' line) 1 of
           Inl e \<Rightarrow> Inl e
         | Inr v \<Rightarrow> parse_evaluation_loop (result\<lparr>feedback := strip v\<rparr>) rest)
      else if startswith line ''Justification:'' then
        (case py_index (split_max1 CHR '':'' line) 1 of
           Inl e \<Rightarrow> Inl e
         | Inr v \<Rightarrow> parse_evaluation_loop (result\<lparr>justification := strip v\<rparr>) rest)
      else parse_evaluation_loop result rest)"

definition parse_evaluation :: "string \<Rightarrow> py_error + evaluation" where
  "parse_evaluation evaluation_text =
     parse_evaluation_loop \<lparr>score = 3, feedback = [], justification = []\<rparr>
       (split_on CHR 0x0A evaluation_text)"

section \<open>\<open>app.py\<close>: the challenge flow\<close>

record session_state =
  document_text :: string
  challenge_questions :: "challenge_question list"
  current_question_index :: nat

definition show_challenge_interface ::
  "model \<Rightarrow> (nat \<Rightarrow> nat) \<Rightarrow> bool \<Rightarrow> session_state \<Rightarrow> session_state" where
  \<comment> \<open>one run of the script; \<open>clicked\<close> is whether the generate button was pressed.
      With questions in the session the run only displays them.\<close>
  "show_challenge_interface generate_content rnd clicked st =
     (if challenge_questions st = [] then
        (if clicked then
           (let questions = generate_challenge_questions generate_content rnd (document_text st)
            in st\<lparr>challenge_questions := questions\<rparr>)
         else st)
      else st)"

section \<open>Auxiliary notions of the proofs\<close>

definition good_word :: "string \<Rightarrow> bool" where
  \<comment> \<open>what \<open>str.split()\<close> returns: non-empty and free of whitespace.\<close>
  "good_word w = (w \<noteq> [] \<and> (\<forall>c\<in>set w. \<not> isspace c))"

definition indices :: "nat \<Rightarrow> nat \<Rightarrow> nat \<Rightarrow> int list" where
  \<comment> \<open>\<open>cnt\<close> loop indices from \<open>i\<close> in steps of \<open>s\<close>.\<close>
  "indices i s cnt = map (\<lambda>k. int i + int k * int s) [0..<cnt]"

definition chunk_at :: "string list \<Rightarrow> nat \<Rightarrow> nat \<Rightarrow> string" where
  \<comment> \<open>the chunk that the loop builds at index \<open>i\<close>.\<close>
  "chunk_at ws m i = join '' '' (py_slice ws (int i) (int i + int m))"

section \<open>Text cleaning\<close>

lemma clean_text_allowed: "\<forall>c\<in>set (clean_text t). allowed_char c"
  by (simp add: clean_text_def)

text \<open>
  Claim C1: for every non-empty text, the result of \<open>clean_text\<close> has no two consecutive
  whitespace characters, no character outside the allowed set, and no leading or trailing
  whitespace. The function collapses and trims first and removes the other characters
  afterwards, so a removed character between two spaces leaves both spaces, and a removed
  first character leaves the space after it: \<open>R & D\<close> becomes \<open>R\<close>, two spaces, \<open>D\<close>,
  and \<open># Title\<close> keeps its leading space.
\<close>

theorem clean_text_keeps_spaces_around_removed:
  "clean_text ''R & D'' = ''R  D'' \<and> clean_text ''# Title'' = '' Title''"
  by code_simp

section \<open>Chunking\<close>

lemma split_from_word:
  "\<forall>c\<in>set w. \<not> isspace c \<Longrightarrow> split_from cur (w @ rest) = split_from (cur @ w) rest"
  by (induction w arbitrary: cur) auto

lemma split_from_good:
  "w \<in> set (split_from cur s) \<Longrightarrow> \<forall>c\<in>set cur. \<not> isspace c \<Longrightarrow> good_word w"
proof (induction s arbitrary: cur)
  case Nil
  then show ?case by (simp add: good_word_def split: if_splits)
next
  case (Cons c cs)
  show ?case
  proof (cases "isspace c")
    case True
    then have "w = cur \<and> cur \<noteq> [] \<or> w \<in> set (split_from [] cs)"
      using Cons.prems(1) by (simp split: if_splits)
    then show ?thesis
    proof
      assume "w = cur \<and> cur \<noteq> []"
      then show ?thesis using Cons.prems(2) by (simp add: good_word_def)
    next
      assume "w \<in> set (split_from [] cs)"
      then show ?thesis by (rule Cons.IH) simp
    qed
  next
    case False
    then have "w \<in> set (split_from (cur @ [c]) cs)"
      using Cons.prems(1) by simp
    then show ?thesis
      by (rule Cons.IH) (use Cons.prems(2) False in simp)
  qed
qed

lemma split_ws_good: "w \<in> set (split_ws s) \<Longrightarrow> good_word w"
  using split_from_good [of w "[]" s] by (simp add: split_ws_def)

lemma isspace_space: "isspace CHR '' ''"
  by (simp add: isspace_def)

lemma split_from_one:
  "good_word w \<Longrightarrow> split_from [] w = [w]"
  using split_from_word [of w "[]" "[]"] by (simp add: good_word_def)

lemma split_from_more:
  "good_word w \<Longrightarrow> split_from [] (w @ '' '' @ rest) = w # split_from [] rest"
  using split_from_word [of w "[]" "'' '' @ rest"] by (simp add: good_word_def isspace_space)

lemma split_ws_join:
  "\<forall>w\<in>set ws. good_word w \<Longrightarrow> split_ws (join '' '' ws) = ws"
proof (induction ws)
  case Nil
  show ?case by (simp add: split_ws_def)
next
  case (Cons w ws)
  show ?case
  proof (cases ws)
    case Nil
    with Cons.prems show ?thesis by (simp add: split_ws_def split_from_one)
  next
    case (Cons v vs)
    with Cons.prems Cons.IH show ?thesis
      by (simp add: split_ws_def split_from_more del: append.simps)
  qed
qed

lemma py_slice_nat:
  "py_slice xs (int i) (int i + int m) = take m (drop i xs)"
  by (auto simp: py_slice_def slice_index_def Let_def min_def nat_add_distrib)

lemma chunk_loop_acc:
  "chunk_loop words m acc is = acc @ chunk_loop words m [] is"
proof (induction "is" arbitrary: acc)
  case Nil show ?case by simp
next
  case (Cons i rest)
  show ?case
    using Cons.IH [of "acc @ [join '' '' (py_slice words i (i + m))]"]
          Cons.IH [of "[join '' '' (py_slice words i (i + m))]"]
    by (simp add: Let_def)
qed

lemma indices_Suc: "indices i s (Suc cnt) = int i # indices (i + s) s cnt"
  by (simp add: indices_def upt_rec [of 0] map_Suc_upt [symmetric] algebra_simps del: upt_Suc)

lemma py_range_indices:
  "0 < s \<Longrightarrow> py_range 0 (int n) (int s) = Inr (indices 0 s ((n + s - 1) div s))"
proof -
  assume s: "0 < s"
  then have "int n - 0 + int s - 1 = int (n + s - 1)" by simp
  then have "nat ((int n - 0 + int s - 1) div int s) = (n + s - 1) div s"
    by (simp only: zdiv_int [symmetric] nat_int)
  with s show ?thesis by (simp add: py_range_def indices_def)
qed


lemma chunk_words:
  assumes "\<forall>w\<in>set ws. good_word w"
  shows "split_ws (chunk_at ws m i) = take m (drop i ws)"
proof -
  have "\<forall>w\<in>set (take m (drop i ws)). good_word w"
    using assms by (meson in_set_takeD in_set_dropD)
  then show ?thesis by (simp add: chunk_at_def py_slice_nat split_ws_join)
qed

lemma chunk_loop_step:
  "chunk_loop ws (int m) [] (indices i s (Suc cnt)) =
     chunk_at ws m i #
       (if length ws \<le> i + m then [] else chunk_loop ws (int m) [] (indices (i + s) s cnt))"
proof -
  have "chunk_loop ws (int m) [chunk_at ws m i] (indices (i + s) s cnt)
      = [chunk_at ws m i] @ chunk_loop ws (int m) [] (indices (i + s) s cnt)"
    by (rule chunk_loop_acc)
  moreover have "(int (length ws) \<le> int i + int m) = (length ws \<le> i + m)"
    by linarith
  ultimately show ?thesis
    by (simp add: indices_Suc Let_def chunk_at_def)
qed

lemma chunk_loop_tail:
  assumes "\<forall>w\<in>set ws. good_word w" "0 < s" "m = s + ov"
  shows "length ws \<le> i + cnt * s \<Longrightarrow>
     concat (map (\<lambda>d. drop ov (split_ws d)) (chunk_loop ws (int m) [] (indices i s cnt)))
       = drop (i + ov) ws"
proof (induction cnt arbitrary: i)
  case 0
  then show ?case by (simp add: indices_def)
next
  case (Suc cnt)
  have piece: "drop ov (split_ws (chunk_at ws m i)) = take s (drop (i + ov) ws)"
    by (simp add: chunk_words [OF assms(1)] assms(3) drop_take add.commute)
  show ?case
  proof (cases "length ws \<le> i + m")
    case True
    then have "take s (drop (i + ov) ws) = drop (i + ov) ws"
      using assms(3) by simp
    then show ?thesis using True
      by (simp add: chunk_loop_step piece)
  next
    case False
    have "length ws \<le> (i + s) + cnt * s" using Suc.prems by simp
    then have "concat (map (\<lambda>d. drop ov (split_ws d))
                 (chunk_loop ws (int m) [] (indices (i + s) s cnt))) = drop (i + s + ov) ws"
      by (rule Suc.IH)
    moreover have "take s (drop (i + ov) ws) @ drop (i + s + ov) ws = drop (i + ov) ws"
      using append_take_drop_id [of s "drop (i + ov) ws"] by (simp add: add.commute add.left_commute)
    ultimately show ?thesis using False
      by (simp add: chunk_loop_step piece)
  qed
qed

lemma chunk_loop_whole:
  assumes "\<forall>w\<in>set ws. good_word w" "0 < s" "m = s + ov" "length ws \<le> cnt * s"
  shows "remove_overlaps ov (chunk_loop ws (int m) [] (indices 0 s cnt)) = ws"
proof (cases cnt)
  case 0
  with assms(4) show ?thesis by (simp add: indices_def remove_overlaps_def)
next
  case (Suc k)
  have first: "split_ws (chunk_at ws m 0) = take m ws"
    using chunk_words [OF assms(1), of m 0] by simp
  have step: "chunk_loop ws (int m) [] (indices 0 s cnt) =
     chunk_at ws m 0 # (if length ws \<le> m then [] else chunk_loop ws (int m) [] (indices s s k))"
    using chunk_loop_step [of ws m 0 s k] Suc by simp
  show ?thesis
  proof (cases "length ws \<le> m")
    case True
    then show ?thesis
      by (simp add: step first remove_overlaps_def)
  next
    case False
    have "length ws \<le> s + k * s" using assms(4) Suc by simp
    then have "concat (map (\<lambda>d. drop ov (split_ws d))
                 (chunk_loop ws (int m) [] (indices s s k))) = drop (s + ov) ws"
      by (rule chunk_loop_tail [OF assms(1,2,3)])
    then have "concat (map (\<lambda>d. drop ov (split_ws d))
                 (chunk_loop ws (int m) [] (indices s s k))) = drop m ws"
      using assms(3) by simp
    then show ?thesis using False
      by (simp add: step first remove_overlaps_def)
  qed
qed

lemma chunk_loop_last:
  assumes "\<forall>w\<in>set ws. good_word w" "0 < s" "m = s + ov"
  shows "i < length ws \<Longrightarrow> length ws \<le> i + cnt * s \<Longrightarrow>
     chunk_loop ws (int m) [] (indices i s cnt) \<noteq> [] \<and>
     last ws \<in> set (split_ws (last (chunk_loop ws (int m) [] (indices i s cnt))))"
proof (induction cnt arbitrary: i)
  case 0
  then show ?case by simp
next
  case (Suc cnt)
  show ?case
  proof (cases "length ws \<le> i + m")
    case True
    with Suc.prems have "take m (drop i ws) = drop i ws" by simp
    then have words: "split_ws (chunk_at ws m i) = drop i ws"
      by (simp add: chunk_words [OF assms(1)])
    have "drop i ws \<noteq> []" using Suc.prems by simp
    moreover have "last (drop i ws) = last ws" using Suc.prems by simp
    ultimately have "last ws \<in> set (drop i ws)"
      using last_in_set [of "drop i ws"] by simp
    then show ?thesis using True
      by (simp add: chunk_loop_step words)
  next
    case False
    then have "i + s < length ws" using assms(3) by simp
    moreover have "length ws \<le> (i + s) + cnt * s" using Suc.prems by simp
    ultimately have "chunk_loop ws (int m) [] (indices (i + s) s cnt) \<noteq> [] \<and>
        last ws \<in> set (split_ws (last (chunk_loop ws (int m) [] (indices (i + s) s cnt))))"
      by (rule Suc.IH)
    then show ?thesis using False by (simp add: chunk_loop_step)
  qed
qed

lemma range_covers: "0 < s \<Longrightarrow> n \<le> ((n + s - 1) div s) * (s::nat)"
proof -
  assume s: "0 < s"
  have "n + s - 1 = ((n + s - 1) div s) * s + (n + s - 1) mod s" by simp
  moreover have "(n + s - 1) mod s \<le> s - 1" using s
    by (metis Suc_pred less_Suc_eq_le mod_less_divisor One_nat_def)
  ultimately show ?thesis using s by linarith
qed

lemma chunk_text_run:
  assumes "0 < s"
  shows "chunk_text text (int (s + ov)) (int ov) =
           Inr (chunk_loop (split_ws text) (int (s + ov)) []
                  (indices 0 s ((length (split_ws text) + s - 1) div s)))"
proof -
  have "int (s + ov) - int ov = int s" by simp
  then show ?thesis
    using py_range_indices [OF assms, of "length (split_ws text)"]
    by (simp only: chunk_text_def Let_def sum.case)
qed

text \<open>
  Claim C2: for every text and all integers with \<open>max_chunk_size > overlap \<ge> 0\<close>,
  \<open>chunk_text\<close> returns a list of chunks; the chunks' word sequences, concatenated after
  the first \<open>overlap\<close> words of every chunk but the first are removed, are the words of the
  text; and when the text has a word, there is a last chunk and the last word of the text
  is in it.
\<close>

theorem chunk_text_reconstructs:
  assumes "0 \<le> overlap" and "overlap < max_chunk_size"
  shows "\<exists>chunks. chunk_text text max_chunk_size overlap = Inr chunks \<and>
           remove_overlaps (nat overlap) chunks = split_ws text \<and>
           (split_ws text \<noteq> [] \<longrightarrow>
              chunks \<noteq> [] \<and> last (split_ws text) \<in> set (split_ws (last chunks)))"
proof -
  define ws where "ws = split_ws text"
  define s where "s = nat (max_chunk_size - overlap)"
  define ov where "ov = nat overlap"
  define cnt where "cnt = (length ws + s - 1) div s"
  have s: "0 < s" and o: "overlap = int ov" and m: "max_chunk_size = int (s + ov)"
    using assms by (simp_all add: s_def ov_def)
  have good: "\<forall>w\<in>set ws. good_word w"
    by (simp add: ws_def split_ws_good)
  have cover: "length ws \<le> cnt * s"
    unfolding cnt_def by (rule range_covers [OF s])
  define loop where "loop = chunk_loop ws (int (s + ov)) [] (indices 0 s cnt)"
  have run: "chunk_text text max_chunk_size overlap = Inr loop"
    unfolding m o ws_def cnt_def loop_def by (rule chunk_text_run [OF s])
  have whole: "remove_overlaps ov loop = ws"
    unfolding loop_def by (rule chunk_loop_whole [OF good s refl cover])
  have lastw: "ws \<noteq> [] \<longrightarrow> loop \<noteq> [] \<and> last ws \<in> set (split_ws (last loop))"
    unfolding loop_def using chunk_loop_last [OF good s refl, of 0 cnt] cover by simp
  show ?thesis
    using run whole lastw by (simp add: ws_def ov_def)
qed

theorem chunk_text_reconstructs_witness:
  "(0::int) \<le> 1 \<and> (1::int) < 4 \<and>
   chunk_text ''a b c d e f g h i j'' 4 1 = Inr [''a b c d'', ''d e f g'', ''g h i j''] \<and>
   remove_overlaps (nat 1) [''a b c d'', ''d e f g'', ''g h i j''] = split_ws ''a b c d e f g h i j'' \<and>
   last (split_ws ''a b c d e f g h i j'') \<in> set (split_ws (last [''a b c d'', ''d e f g'', ''g h i j'']))"
proof -
  have h: "(0::int) \<le> 1" "(1::int) < 4"
    by simp_all
  have run: "chunk_text ''a b c d e f g h i j'' 4 1 = Inr [''a b c d'', ''d e f g'', ''g h i j'']"
    by code_simp
  have ne: "split_ws ''a b c d e f g h i j'' \<noteq> []"
    by code_simp
  obtain chunks where c: "chunk_text ''a b c d e f g h i j'' 4 1 = Inr chunks"
      "remove_overlaps (nat 1) chunks = split_ws ''a b c d e f g h i j''"
      "split_ws ''a b c d e f g h i j'' \<noteq> [] \<longrightarrow>
         chunks \<noteq> [] \<and> last (split_ws ''a b c d e f g h i j'') \<in> set (split_ws (last chunks))"
    using chunk_text_reconstructs [OF h, of "''a b c d e f g h i j''"] by blast
  have eq: "chunks = [''a b c d'', ''d e f g'', ''g h i j'']"
    using c(1) unfolding run by (rule sum.inject(2) [THEN iffD1, symmetric])
  show ?thesis
    using h run c(2) c(3) ne unfolding eq by blast
qed

section \<open>Line prefixes\<close>

lemma startswith_set: "startswith s p \<Longrightarrow> c \<in> set p \<Longrightarrow> c \<in> set s"
proof -
  assume "startswith s p" and c: "c \<in> set p"
  then have "take (length p) s = p" by (simp add: startswith_def)
  then have "set p \<subseteq> set s" by (metis set_take_subset)
  with c show ?thesis by blast
qed

lemma split_max1_second:
  "sep \<in> set s \<Longrightarrow> py_index (split_max1 sep s) 1 = Inr (tl (dropWhile (\<lambda>c. c \<noteq> sep) s))"
  by (simp add: split_max1_def py_index_def)

section \<open>Evaluation parsing\<close>

lemma parse_score_range: "parse_score line = Inr v \<Longrightarrow> 1 \<le> v \<and> v \<le> 5"
  by (auto simp: parse_score_def Let_def split: sum.splits)

lemma parse_score_error:
  "parse_score line = Inl e \<Longrightarrow> (\<exists>m. e = ValueError m) \<or> (\<exists>m. e = IndexError m)"
  by (auto simp: parse_score_def Let_def py_index_def py_int_def split: sum.splits if_splits)

lemma parse_evaluation_loop_range:
  "1 \<le> score result \<Longrightarrow> score result \<le> 5 \<Longrightarrow>
   \<exists>r. parse_evaluation_loop result lines = Inr r \<and> 1 \<le> score r \<and> score r \<le> 5"
proof (induction lines arbitrary: result)
  case Nil
  then show ?case by simp
next
  case (Cons raw rest)
  define line where "line = strip raw"
  have keep: "\<exists>r. parse_evaluation_loop result rest = Inr r \<and> 1 \<le> score r \<and> score r \<le> 5"
    using Cons.prems by (rule Cons.IH)
  show ?case
  proof (cases "startswith line ''Score:''")
    case True
    show ?thesis
    proof (cases "parse_score line")
      case (Inl e)
      then consider m where "e = ValueError m" | m where "e = IndexError m"
        using parse_score_error by blast
      then show ?thesis using True Inl keep
        by cases (simp_all add: line_def [symmetric])
    next
      case (Inr v)
      then have "1 \<le> v \<and> v \<le> 5" by (rule parse_score_range)
      then have "\<exists>r. parse_evaluation_loop (result\<lparr>score := v\<rparr>) rest = Inr r \<and> 1 \<le> score r \<and> score r \<le> 5"
        by (intro Cons.IH) simp_all
      then show ?thesis using True Inr by (simp add: line_def [symmetric])
    qed
  next
    case noscore: False
    show ?thesis
    proof (cases "startswith line ''Feedback:''")
      case True
      then have "CHR '':'' \<in> set line" by (rule startswith_set) simp
      then have idx: "py_index (split_max1 CHR '':'' line) 1 = Inr (tl (dropWhile (\<lambda>c. c \<noteq> CHR '':'') line))"
        by (rule split_max1_second)
      have "\<exists>r. parse_evaluation_loop (result\<lparr>feedback := strip (tl (dropWhile (\<lambda>c. c \<noteq> CHR '':'') line))\<rparr>) rest = Inr r \<and> 1 \<le> score r \<and> score r \<le> 5"
        using Cons.prems by (intro Cons.IH) simp_all
      then show ?thesis using True noscore idx by (simp add: line_def [symmetric])
    next
      case nofb: False
      show ?thesis
      proof (cases "startswith line ''Justification:''")
        case True
        then have "CHR '':'' \<in> set line" by (rule startswith_set) simp
        then have idx: "py_index (split_max1 CHR '':'' line) 1 = Inr (tl (dropWhile (\<lambda>c. c \<noteq> CHR '':'') line))"
          by (rule split_max1_second)
        have "\<exists>r. parse_evaluation_loop (result\<lparr>justification := strip (tl (dropWhile (\<lambda>c. c \<noteq> CHR '':'') line))\<rparr>) rest = Inr r \<and> 1 \<le> score r \<and> score r \<le> 5"
          using Cons.prems by (intro Cons.IH) simp_all
        then show ?thesis using True noscore nofb idx by (simp add: line_def [symmetric])
      next
        case False
        then show ?thesis using noscore nofb keep by (simp add: line_def [symmetric])
      qed
    qed
  qed
qed

lemma parse_evaluation_four_of_five: "parse_evaluation ''Score: 4/5'' = Inr \<lparr>score = 4, feedback = [], justification = []\<rparr>"
  by code_simp
lemma parse_evaluation_nine: "parse_evaluation ''Score: 9'' = Inr \<lparr>score = 5, feedback = [], justification = []\<rparr>"
  by code_simp
lemma parse_evaluation_abc: "parse_evaluation ''Score: abc'' = Inr \<lparr>score = 3, feedback = [], justification = []\<rparr>"
  by code_simp

text \<open>
  Claim C3: for every evaluation response, \<open>_parse_evaluation\<close> returns a record whose
  score is an integer from 1 to 5; the line \<open>Score: 4/5\<close> gives 4, the line \<open>Score: 9\<close>
  gives the clamped 5, and the line \<open>Score: abc\<close> leaves the default 3.
\<close>

theorem parse_evaluation_score_range:
  "(\<exists>r. parse_evaluation evaluation_text = Inr r \<and> 1 \<le> score r \<and> score r \<le> 5) \<and>
   parse_evaluation ''Score: 4/5'' = Inr \<lparr>score = 4, feedback = [], justification = []\<rparr> \<and>
   parse_evaluation ''Score: 9'' = Inr \<lparr>score = 5, feedback = [], justification = []\<rparr> \<and>
   parse_evaluation ''Score: abc'' = Inr \<lparr>score = 3, feedback = [], justification = []\<rparr>"
proof -
  have "\<exists>r. parse_evaluation evaluation_text = Inr r \<and> 1 \<le> score r \<and> score r \<le> 5"
    unfolding parse_evaluation_def by (rule parse_evaluation_loop_range) simp_all
  then show ?thesis using parse_evaluation_four_of_five parse_evaluation_nine parse_evaluation_abc by blast
qed

section \<open>Challenge questions: the fallback\<close>

text \<open>
  Claim C4: for every document text, when the call of the model inside
  \<open>generate_challenge_questions\<close> raises, the operation returns, with no error, exactly
  the three fixed fallback questions; each has a non-empty question, a non-empty expected
  answer, and a type among the four fixed categories.
\<close>

theorem challenge_questions_fallback:
  assumes "generate_content (create_question_prompt doc) question_config = Inl e"
  shows "generate_challenge_questions generate_content rnd doc = generate_fallback_questions doc \<and>
         length (generate_challenge_questions generate_content rnd doc) = 3 \<and>
         (\<forall>q\<in>set (generate_challenge_questions generate_content rnd doc).
            question q \<noteq> [] \<and> expected_answer q \<noteq> [] \<and> type q \<in> set question_types) \<and>
         map type (generate_challenge_questions generate_content rnd doc) =
           [''comprehension'', ''inference'', ''analysis'']"
proof -
  have run: "generate_challenge_questions generate_content rnd doc = generate_fallback_questions doc"
    using assms by (simp add: generate_challenge_questions_def)
  show ?thesis
    unfolding run by (simp add: generate_fallback_questions_def question_types_def)
qed

theorem challenge_questions_fallback_witness:
  "generate_challenge_questions (\<lambda>p c. Inl (ModelError ''timeout'')) (\<lambda>k. 0) ''some text''
     = generate_fallback_questions ''some text'' \<and>
   length (generate_challenge_questions (\<lambda>p c. Inl (ModelError ''timeout'')) (\<lambda>k. 0) ''some text'') = 3"
  using challenge_questions_fallback
    [of "\<lambda>p c. Inl (ModelError ''timeout'')" "''some text''" "ModelError ''timeout''" "\<lambda>k. 0"]
  by blast

section \<open>Answer parsing\<close>

lemma parse_answer_loop_no_prefix:
  "\<forall>line\<in>set lines. \<not> startswith line ''Answer:'' \<and> \<not> startswith line ''Reference:'' \<Longrightarrow>
   parse_answer_loop result lines = Inr result"
  by (induction lines) simp_all

text \<open>
  Claim C6: for every response text with no line that starts with \<open>Answer:\<close> and no line
  that starts with \<open>Reference:\<close>, \<open>_parse_answer\<close> returns a record whose answer is the
  whole trimmed text and whose reference is \<open>General document content\<close>.
\<close>

theorem parse_answer_default:
  assumes "\<forall>line\<in>set (splitlines answer_text).
             \<not> startswith line ''Answer:'' \<and> \<not> startswith line ''Reference:''"
  shows "parse_answer answer_text =
           Inr \<lparr>answer = strip answer_text, reference = ''General document content'',
                confidence = 8 / 10\<rparr>"
  using parse_answer_loop_no_prefix [OF assms]
  by (simp add: parse_answer_def)

theorem parse_answer_default_witness:
  "parse_answer ''  It is not an Answer: none.  '' =
     Inr \<lparr>answer = ''It is not an Answer: none.'', reference = ''General document content'',
          confidence = 8 / 10\<rparr>"
proof -
  have lines: "splitlines ''  It is not an Answer: none.  '' = [''  It is not an Answer: none.  '']"
    by code_simp
  have pre: "\<forall>line\<in>set (splitlines ''  It is not an Answer: none.  '').
             \<not> startswith line ''Answer:'' \<and> \<not> startswith line ''Reference:''"
    unfolding lines by (simp add: startswith_def)
  have trimmed: "strip ''  It is not an Answer: none.  '' = ''It is not an Answer: none.''"
    by code_simp
  show ?thesis
    using parse_answer_default [OF pre] unfolding trimmed .
qed

section \<open>Answering a question\<close>

lemma parse_answer_loop_total: "\<exists>r. parse_answer_loop result lines = Inr r"
proof (induction lines arbitrary: result)
  case Nil
  show ?case by simp
next
  case (Cons line rest)
  have idx: "py_index (split_max1 CHR '':'' line) 1 = Inr (tl (dropWhile (\<lambda>c. c \<noteq> CHR '':'') line))"
    if "startswith line p" "CHR '':'' \<in> set p" for p
  proof -
    have "CHR '':'' \<in> set line" using that by (rule startswith_set)
    then show ?thesis by (rule split_max1_second)
  qed
  have a: "CHR '':'' \<in> set ''Answer:''" and r: "CHR '':'' \<in> set ''Reference:''"
    by simp_all
  show ?case
  proof (cases "startswith line ''Answer:''")
    case True
    then show ?thesis using idx [OF True a] Cons.IH by simp
  next
    case False
    show ?thesis
    proof (cases "startswith line ''Reference:''")
      case True
      then show ?thesis using idx [OF True r] False Cons.IH by simp
    next
      case nr: False
      then show ?thesis using False Cons.IH by simp
    qed
  qed
qed

lemma parse_answer_total: "\<exists>r. parse_answer t = Inr r"
proof -
  obtain r where "parse_answer_loop \<lparr>answer = [], reference = [], confidence = 8 / 10\<rparr> (splitlines t) = Inr r"
    using parse_answer_loop_total by blast
  then show ?thesis by (simp add: parse_answer_def)
qed

text \<open>
  Claim C10: for every question and document text, if the call of the model, or a step
  before it, raises inside \<open>answer_question\<close> (that is, whenever the steps before the call
  succeed the call itself raises), the conversation history after the call is the history
  before it, and the returned record has the reference \<open>System error\<close>.
\<close>

theorem answer_question_error:
  assumes "\<And>chunks best_chunk.
             chunk_text doc 1500 150 = Inr chunks \<Longrightarrow>
             find_relevant_chunk q chunks = Inr best_chunk \<Longrightarrow>
             \<exists>e. generate_content (answer_prompt best_chunk q) answer_config = Inl e"
  shows "conversation_history (snd (answer_question generate_content self q doc))
           = conversation_history self \<and>
         reference (fst (answer_question generate_content self q doc)) = ''System error''"
proof -
  have "\<exists>e. answer_steps generate_content q doc = Inl e"
  proof (cases "chunk_text doc 1500 150")
    case (Inl e)
    then show ?thesis by (simp add: answer_steps_def)
  next
    case chunks: (Inr chunks)
    show ?thesis
    proof (cases "find_relevant_chunk q chunks")
      case (Inl e)
      then show ?thesis using chunks by (simp add: answer_steps_def)
    next
      case (Inr best_chunk)
      with chunks obtain e where "generate_content (answer_prompt best_chunk q) answer_config = Inl e"
        using assms by blast
      then show ?thesis using chunks Inr by (simp add: answer_steps_def)
    qed
  qed
  then obtain e where "answer_steps generate_content q doc = Inl e" ..
  then show ?thesis by (simp add: answer_question_def)
qed

theorem answer_question_error_witness:
  "conversation_history (snd (answer_question (\<lambda>p c. Inl (ModelError ''timeout''))
       \<lparr>conversation_history = [\<lparr>h_question = ''a'', h_answer = ''b'', h_reference = ''c''\<rparr>]\<rparr>
       ''what is it'' ''the doc text''))
     = [\<lparr>h_question = ''a'', h_answer = ''b'', h_reference = ''c''\<rparr>] \<and>
   reference (fst (answer_question (\<lambda>p c. Inl (ModelError ''timeout''))
       \<lparr>conversation_history = [\<lparr>h_question = ''a'', h_answer = ''b'', h_reference = ''c''\<rparr>]\<rparr>
       ''what is it'' ''the doc text'')) = ''System error''"
  using answer_question_error
    [of "''the doc text''" "''what is it''" "\<lambda>p c. Inl (ModelError ''timeout'')"
        "\<lparr>conversation_history = [\<lparr>h_question = ''a'', h_answer = ''b'', h_reference = ''c''\<rparr>]\<rparr>"]
  by simp

section \<open>Challenge questions: partial results\<close>

lemma parse_questions_loop_total: "\<exists>st'. parse_questions_loop rnd st lines = Inr st'"
proof (induction lines arbitrary: st)
  case Nil
  show ?case by simp
next
  case (Cons raw rest)
  define line where "line = strip raw"
  define v where "v = tl (dropWhile (\<lambda>c. c \<noteq> CHR '':'') line)"
  have idx: "py_index (split_max1 CHR '':'' line) 1 = Inr v" if "CHR '':'' \<in> set line"
    unfolding v_def using that by (rule split_max1_second)
  consider
      (q) "startswith line ''Q''" "CHR '':'' \<in> set line"
    | (a) "\<not> (startswith line ''Q'' \<and> CHR '':'' \<in> set line)"
          "startswith line ''A''" "CHR '':'' \<in> set line" "truthy (current_q st)"
    | (other) "\<not> (startswith line ''Q'' \<and> CHR '':'' \<in> set line)"
          "\<not> (startswith line ''A'' \<and> CHR '':'' \<in> set line \<and> truthy (current_q st))"
    by blast
  then show ?case
  proof cases
    case q
    have "parse_questions_loop rnd st (raw # rest) =
            parse_questions_loop rnd
              ((add_question rnd st)\<lparr>current_q := Some (strip v), current_a := None\<rparr>) rest"
      using q idx [OF q(2)] by (simp add: line_def [symmetric] Let_def)
    then show ?thesis using Cons.IH by simp
  next
    case a
    have "parse_questions_loop rnd st (raw # rest) =
            parse_questions_loop rnd (st\<lparr>current_a := Some (strip v)\<rparr>) rest"
      using a idx [OF a(3)] by (simp add: line_def [symmetric] Let_def)
    then show ?thesis using Cons.IH by simp
  next
    case other
    have "parse_questions_loop rnd st (raw # rest) = parse_questions_loop rnd st rest"
      using other by (auto simp add: line_def [symmetric] Let_def)
    then show ?thesis using Cons.IH by simp
  qed
qed

lemma py_slice_to_length: "0 \<le> n \<Longrightarrow> int (length (py_slice_to xs n)) \<le> n"
  by (simp add: py_slice_to_def slice_index_def)

lemma parse_questions_total: "\<exists>qs. parse_questions rnd t = Inr qs \<and> length qs \<le> 3"
proof -
  obtain st' where "parse_questions_loop rnd
      \<lparr>questions = [], current_q = None, current_a = None, draws = 0\<rparr>
      (split_on CHR 0x0A (strip t)) = Inr st'"
    using parse_questions_loop_total by blast
  moreover have "length (py_slice_to (questions (add_question rnd st')) 3) \<le> 3"
    using py_slice_to_length [of 3 "questions (add_question rnd st')"] by simp
  ultimately show ?thesis by (simp add: parse_questions_def Let_def)
qed

lemma fallback_length: "length (generate_fallback_questions doc) = 3"
  by (simp add: generate_fallback_questions_def)

text \<open>
  Claim C7 says that, when fewer than three pairs are parsed, the generator returns the
  partial list and the caller of the challenge flow detects the shortfall and puts the
  three fallback questions in its place. The caller stores what the generator returns:
  for a response with one pair the session holds that one question, not the fallback set.
\<close>

theorem caller_substitutes_fallback_counterexample:
  "parse_questions (\<lambda>k. 0) ''Q1: What?\<newline>A1: This.'' =
     Inr [\<lparr>question = ''What?'', expected_answer = ''This.'', type = ''comprehension''\<rparr>] \<and>
   challenge_questions
     (show_challenge_interface (\<lambda>p c. Inr (Some ''Q1: What?\<newline>A1: This.'')) (\<lambda>k. 0) True
        \<lparr>document_text = ''some text'', challenge_questions = [], current_question_index = 0\<rparr>) =
     [\<lparr>question = ''What?'', expected_answer = ''This.'', type = ''comprehension''\<rparr>] \<and>
   challenge_questions
     (show_challenge_interface (\<lambda>p c. Inr (Some ''Q1: What?\<newline>A1: This.'')) (\<lambda>k. 0) True
        \<lparr>document_text = ''some text'', challenge_questions = [], current_question_index = 0\<rparr>) \<noteq>
     generate_fallback_questions ''some text''"
proof -
  have p: "parse_questions (\<lambda>k. 0) ''Q1: What?\<newline>A1: This.'' =
     Inr [\<lparr>question = ''What?'', expected_answer = ''This.'', type = ''comprehension''\<rparr>]"
    by code_simp
  have run: "challenge_questions
     (show_challenge_interface (\<lambda>p c. Inr (Some ''Q1: What?\<newline>A1: This.'')) (\<lambda>k. 0) True
        \<lparr>document_text = ''some text'', challenge_questions = [], current_question_index = 0\<rparr>) =
     [\<lparr>question = ''What?'', expected_answer = ''This.'', type = ''comprehension''\<rparr>]"
    by (simp add: show_challenge_interface_def generate_challenge_questions_def text_or_empty_def p)
  have "length [\<lparr>question = ''What?'', expected_answer = ''This.'', type = ''comprehension''\<rparr>]
          \<noteq> length (generate_fallback_questions ''some text'')"
    by (simp add: fallback_length)
  then have "[\<lparr>question = ''What?'', expected_answer = ''This.'', type = ''comprehension''\<rparr>]
          \<noteq> generate_fallback_questions ''some text''"
    by metis
  with p run show ?thesis by simp
qed

text \<open>
  Claim C7, as the code has it: for every model response (no exception), the generator
  returns the parsed list of at most three questions unchanged, also when it has fewer
  than three, and the caller, on an empty session and a click, stores exactly that list
  as the session's challenge questions; with fewer than three questions this is not the
  fallback set.
\<close>

theorem partial_questions_kept:
  assumes "generate_content (create_question_prompt (document_text st)) question_config = Inr response"
      and "challenge_questions st = []"
  shows "\<exists>qs. parse_questions rnd (text_or_empty response) = Inr qs \<and> length qs \<le> 3 \<and>
           generate_challenge_questions generate_content rnd (document_text st) = qs \<and>
           challenge_questions (show_challenge_interface generate_content rnd True st) = qs \<and>
           (length qs < 3 \<longrightarrow>
              challenge_questions (show_challenge_interface generate_content rnd True st)
                \<noteq> generate_fallback_questions (document_text st))"
proof -
  obtain qs where qs: "parse_questions rnd (text_or_empty response) = Inr qs" "length qs \<le> 3"
    using parse_questions_total by blast
  have gen: "generate_challenge_questions generate_content rnd (document_text st) = qs"
    using assms(1) qs(1) by (simp add: generate_challenge_questions_def)
  have caller: "challenge_questions (show_challenge_interface generate_content rnd True st) = qs"
    using assms(2) gen by (simp add: show_challenge_interface_def)
  have "length qs < 3 \<longrightarrow> qs \<noteq> generate_fallback_questions (document_text st)"
    using fallback_length [of "document_text st"] by auto
  with qs gen caller show ?thesis by simp
qed

theorem partial_questions_kept_witness:
  "generate_challenge_questions (\<lambda>p c. Inr (Some ''Q1: What?\<newline>A1: This.'')) (\<lambda>k. 0) ''some text'' =
     [\<lparr>question = ''What?'', expected_answer = ''This.'', type = ''comprehension''\<rparr>] \<and>
   challenge_questions
     (show_challenge_interface (\<lambda>p c. Inr (Some ''Q1: What?\<newline>A1: This.'')) (\<lambda>k. 0) True
        \<lparr>document_text = ''some text'', challenge_questions = [], current_question_index = 0\<rparr>) =
     [\<lparr>question = ''What?'', expected_answer = ''This.'', type = ''comprehension''\<rparr>]"
proof -
  have p: "parse_questions (\<lambda>k. 0) (text_or_empty (Some ''Q1: What?\<newline>A1: This.'')) =
     Inr [\<lparr>question = ''What?'', expected_answer = ''This.'', type = ''comprehension''\<rparr>]"
    by code_simp
  show ?thesis
    using partial_questions_kept
      [of "\<lambda>p c. Inr (Some ''Q1: What?\<newline>A1: This.'')"
          "\<lparr>document_text = ''some text'', challenge_questions = [], current_question_index = 0\<rparr>"
          "Some ''Q1: What?\<newline>A1: This.''" "\<lambda>k. 0"]
    unfolding p by simp
qed

section \<open>Relevant chunk\<close>

lemma best_loop_cases:
  "best_loop qw (bc, bs) rest = (rc, rs) \<Longrightarrow>
   ((\<forall>c\<in>set rest. card (qw \<inter> word_set c) \<le> bs) \<and> rc = bc \<and> rs = bs) \<or>
   (\<exists>i<length rest. rc = rest ! i \<and> rs = card (qw \<inter> word_set (rest ! i)) \<and> bs < rs \<and>
      (\<forall>j<i. card (qw \<inter> word_set (rest ! j)) < rs) \<and>
      (\<forall>j<length rest. card (qw \<inter> word_set (rest ! j)) \<le> rs))"
proof (induction rest arbitrary: bc bs)
  case Nil
  then show ?case by simp
next
  case (Cons c rest)
  define f where "f = (\<lambda>d. card (qw \<inter> word_set d))"
  show ?case
  proof (cases "bs < f c")
    case True
    then have run: "best_loop qw (c, f c) rest = (rc, rs)"
      using Cons.prems by (simp add: f_def Let_def)
    from Cons.IH [OF run [unfolded f_def]]
    have "((\<forall>d\<in>set rest. f d \<le> f c) \<and> rc = c \<and> rs = f c) \<or>
       (\<exists>i<length rest. rc = rest ! i \<and> rs = f (rest ! i) \<and> f c < rs \<and>
          (\<forall>j<i. f (rest ! j) < rs) \<and> (\<forall>j<length rest. f (rest ! j) \<le> rs))"
      by (simp add: f_def)
    then have "\<exists>i<length (c # rest). rc = (c # rest) ! i \<and> rs = f ((c # rest) ! i) \<and> bs < rs \<and>
          (\<forall>j<i. f ((c # rest) ! j) < rs) \<and> (\<forall>j<length (c # rest). f ((c # rest) ! j) \<le> rs)"
    proof
      assume a: "(\<forall>d\<in>set rest. f d \<le> f c) \<and> rc = c \<and> rs = f c"
      have "\<forall>j<length (c # rest). f ((c # rest) ! j) \<le> f c"
        using a by (auto simp: nth_Cons' )
      with a True show ?thesis by (intro exI [of _ 0]) simp
    next
      assume "\<exists>i<length rest. rc = rest ! i \<and> rs = f (rest ! i) \<and> f c < rs \<and>
          (\<forall>j<i. f (rest ! j) < rs) \<and> (\<forall>j<length rest. f (rest ! j) \<le> rs)"
      then obtain i where i: "i < length rest" "rc = rest ! i" "rs = f (rest ! i)" "f c < rs"
          "\<forall>j<i. f (rest ! j) < rs" "\<forall>j<length rest. f (rest ! j) \<le> rs"
        by blast
      have "\<forall>j<Suc i. f ((c # rest) ! j) < rs"
        using i(4,5) by (auto simp: nth_Cons' )
      moreover have "\<forall>j<length (c # rest). f ((c # rest) ! j) \<le> rs"
        using i(4,6) by (auto simp: nth_Cons')
      ultimately show ?thesis
        using i(1,2,3,4) True by (intro exI [of _ "Suc i"]) simp
    qed
    then show ?thesis by (simp add: f_def)
  next
    case False
    then have run: "best_loop qw (bc, bs) rest = (rc, rs)"
      using Cons.prems by (simp add: f_def Let_def)
    from Cons.IH [OF run]
    have "((\<forall>d\<in>set rest. f d \<le> bs) \<and> rc = bc \<and> rs = bs) \<or>
       (\<exists>i<length rest. rc = rest ! i \<and> rs = f (rest ! i) \<and> bs < rs \<and>
          (\<forall>j<i. f (rest ! j) < rs) \<and> (\<forall>j<length rest. f (rest ! j) \<le> rs))"
      by (simp add: f_def)
    then have "((\<forall>d\<in>set (c # rest). f d \<le> bs) \<and> rc = bc \<and> rs = bs) \<or>
       (\<exists>i<length (c # rest). rc = (c # rest) ! i \<and> rs = f ((c # rest) ! i) \<and> bs < rs \<and>
          (\<forall>j<i. f ((c # rest) ! j) < rs) \<and> (\<forall>j<length (c # rest). f ((c # rest) ! j) \<le> rs))"
    proof
      assume "(\<forall>d\<in>set rest. f d \<le> bs) \<and> rc = bc \<and> rs = bs"
      then show ?thesis using False by simp
    next
      assume "\<exists>i<length rest. rc = rest ! i \<and> rs = f (rest ! i) \<and> bs < rs \<and>
          (\<forall>j<i. f (rest ! j) < rs) \<and> (\<forall>j<length rest. f (rest ! j) \<le> rs)"
      then obtain i where i: "i < length rest" "rc = rest ! i" "rs = f (rest ! i)" "bs < rs"
          "\<forall>j<i. f (rest ! j) < rs" "\<forall>j<length rest. f (rest ! j) \<le> rs"
        by blast
      have "f c < rs" using False i(4) by simp
      then have "\<forall>j<Suc i. f ((c # rest) ! j) < rs"
        using i(5) by (auto simp: nth_Cons')
      moreover have "\<forall>j<length (c # rest). f ((c # rest) ! j) \<le> rs"
        using \<open>f c < rs\<close> i(6) by (auto simp: nth_Cons')
      ultimately have "\<exists>k<length (c # rest). rc = (c # rest) ! k \<and> rs = f ((c # rest) ! k) \<and> bs < rs \<and>
          (\<forall>j<k. f ((c # rest) ! j) < rs) \<and> (\<forall>j<length (c # rest). f ((c # rest) ! j) \<le> rs)"
        using i(1,2,3,4) by (intro exI [of _ "Suc i"]) simp
      then show ?thesis by blast
    qed
    then show ?thesis by (simp add: f_def)
  qed
qed

lemma find_relevant_chunk_example:
  "find_relevant_chunk ''bird dog'' [''cat dog'', ''cat dog bird'', ''plain''] = Inr ''cat dog bird''"
  by code_simp

text \<open>
  Claim C5: for every question and every non-empty list of chunks,
  \<open>_find_relevant_chunk\<close> returns the first chunk, in the order of the list, whose
  overlap with the question (the number of common lower-case words) is greatest: no chunk
  has a greater overlap and every earlier chunk has a strictly smaller one. For the chunks
  \<open>cat dog\<close>, \<open>cat dog bird\<close>, \<open>plain\<close> and the question \<open>bird dog\<close> it returns
  \<open>cat dog bird\<close>.
\<close>

theorem find_relevant_chunk_first_greatest:
  assumes "chunks \<noteq> []"
  shows "(\<exists>i<length chunks.
            find_relevant_chunk q chunks = Inr (chunks ! i) \<and>
            (\<forall>j<length chunks. card (word_set q \<inter> word_set (chunks ! j))
                                 \<le> card (word_set q \<inter> word_set (chunks ! i))) \<and>
            (\<forall>j<i. card (word_set q \<inter> word_set (chunks ! j))
                     < card (word_set q \<inter> word_set (chunks ! i)))) \<and>
         find_relevant_chunk ''bird dog'' [''cat dog'', ''cat dog bird'', ''plain'']
           = Inr ''cat dog bird''"
proof -
  define f where "f = (\<lambda>d. card (word_set q \<inter> word_set d))"
  obtain c0 cs where chunks: "chunks = c0 # cs"
    using assms by (cases chunks) auto
  obtain rc rs where run: "best_loop (word_set q) (c0, 0) chunks = (rc, rs)"
    by (cases "best_loop (word_set q) (c0, 0) chunks") auto
  have res: "find_relevant_chunk q chunks = Inr rc"
    using run by (simp add: find_relevant_chunk_def py_index_def chunks)
  from best_loop_cases [OF run]
  have "((\<forall>d\<in>set chunks. f d \<le> 0) \<and> rc = c0 \<and> rs = 0) \<or>
     (\<exists>i<length chunks. rc = chunks ! i \<and> rs = f (chunks ! i) \<and> 0 < rs \<and>
        (\<forall>j<i. f (chunks ! j) < rs) \<and> (\<forall>j<length chunks. f (chunks ! j) \<le> rs))"
    by (simp add: f_def)
  then have "\<exists>i<length chunks. rc = chunks ! i \<and>
      (\<forall>j<length chunks. f (chunks ! j) \<le> f (chunks ! i)) \<and> (\<forall>j<i. f (chunks ! j) < f (chunks ! i))"
  proof
    assume a: "(\<forall>d\<in>set chunks. f d \<le> 0) \<and> rc = c0 \<and> rs = 0"
    then have "\<forall>j<length chunks. f (chunks ! j) \<le> f (chunks ! 0)"
      by simp
    with a show ?thesis
      by (intro exI [of _ 0]) (simp add: chunks)
  next
    assume "\<exists>i<length chunks. rc = chunks ! i \<and> rs = f (chunks ! i) \<and> 0 < rs \<and>
        (\<forall>j<i. f (chunks ! j) < rs) \<and> (\<forall>j<length chunks. f (chunks ! j) \<le> rs)"
    then show ?thesis by blast
  qed
  then show ?thesis
    using res find_relevant_chunk_example by (simp add: f_def)
qed

theorem find_relevant_chunk_first_greatest_witness:
  "find_relevant_chunk ''dog'' [''cat'', ''a dog'', ''the dog''] = Inr ''a dog'' \<and>
   (\<exists>i<length [''cat'', ''a dog'', ''the dog''].
      find_relevant_chunk ''dog'' [''cat'', ''a dog'', ''the dog'']
        = Inr ([''cat'', ''a dog'', ''the dog''] ! i))"
proof -
  have ne: "[''cat'', ''a dog'', ''the dog''] \<noteq> []" by simp
  have run: "find_relevant_chunk ''dog'' [''cat'', ''a dog'', ''the dog''] = Inr ''a dog''"
    by code_simp
  show ?thesis
    using find_relevant_chunk_first_greatest [OF ne, of "''dog''"] run by blast
qed

section \<open>Sentence scores\<close>

lemma important_words_distinct: "distinct important_words"
  by (simp add: important_words_def)

lemma important_words_length: "length important_words = 7"
  by (simp add: important_words_def)

lemma str_contains_counted: "str_contains s sub \<Longrightarrow> 1 \<le> count_occurrences s sub"
  by (induction s) auto

lemma count_positive_contains: "1 \<le> count_occurrences s sub \<Longrightarrow> str_contains s sub"
  by (induction s) (auto split: if_splits)

lemma filter_length_sum:
  "length (filter P xs) = sum_list (map (\<lambda>x. if P x then 1 else 0) xs)"
  by (induction xs) auto

lemma sentence_score_le_occurrences: "sentence_score s \<le> occurrence_score s"
proof -
  have "sum_list (map (\<lambda>w. if str_contains (lower s) (lower w) then 1 else 0) important_words)
      \<le> sum_list (map (\<lambda>w. count_occurrences (lower s) (lower w)) important_words)"
    by (rule sum_list_mono) (auto dest: str_contains_counted)
  then show ?thesis
    by (simp add: sentence_score_def occurrence_score_def filter_length_sum)
qed

lemma sentence_score_card:
  "sentence_score s = card {w \<in> set important_words. str_contains (lower s) (lower w)}"
proof -
  have "{w \<in> set important_words. str_contains (lower s) (lower w)}
      = set (filter (\<lambda>w. str_contains (lower s) (lower w)) important_words)"
    by auto
  moreover have "distinct (filter (\<lambda>w. str_contains (lower s) (lower w)) important_words)"
    using important_words_distinct by (rule distinct_filter)
  ultimately have "card {w \<in> set important_words. str_contains (lower s) (lower w)}
      = length (filter (\<lambda>w. str_contains (lower s) (lower w)) important_words)"
    by (simp only: distinct_card)
  then show ?thesis
    by (simp only: sentence_score_def)
qed

lemma sentence_score_le_7: "sentence_score s \<le> 7"
  using length_filter_le [of "\<lambda>w. str_contains (lower s) (lower w)" important_words]
  by (simp add: sentence_score_def important_words_length)

lemma scored_sentences_score:
  "(sc, s) \<in> set (scored_sentences t) \<Longrightarrow> sc = sentence_score s"
  by (auto simp: scored_sentences_def)

lemma scored_sentences_example:
  "scored_sentences ''a result of my result.'' = [(1, ''a result of my result'')]"
  by code_simp

lemma occurrence_score_example: "occurrence_score ''a result of my result'' = 2"
  by code_simp

text \<open>
  Claim C8 says that a sentence's score is the number of case-insensitive occurrences of
  vocabulary terms in it, so that a term occurring twice adds 2. The score adds 1 for each
  term that is present: the sentence \<open>a result of my result\<close> has two occurrences of
  \<open>result\<close> and the score 1.
\<close>

theorem score_counts_occurrences_counterexample:
  "scored_sentences ''a result of my result.'' = [(1, ''a result of my result'')] \<and>
   occurrence_score ''a result of my result'' = 2 \<and>
   sentence_score ''a result of my result'' \<noteq> occurrence_score ''a result of my result''"
proof -
  have "(1, ''a result of my result'') \<in> set (scored_sentences ''a result of my result.'')"
    unfolding scored_sentences_example by simp
  then have "sentence_score ''a result of my result'' = 1"
    by (rule scored_sentences_score [symmetric])
  then have "sentence_score ''a result of my result'' \<noteq> occurrence_score ''a result of my result''"
    unfolding occurrence_score_example by simp
  then show ?thesis
    using scored_sentences_example occurrence_score_example by (intro conjI)
qed

text \<open>
  Claim C8, as the code has it: in \<open>extract_key_sentences\<close> every sentence's score is the
  number of terms of the vocabulary that occur in the sentence, case-insensitively, at
  least once; a term that occurs several times counts once. The score is therefore at
  most 7 and at most the number of occurrences.
\<close>

theorem score_counts_terms_present:
  assumes "(sc, s) \<in> set (scored_sentences t)"
  shows "sc = card {w \<in> set important_words. str_contains (lower s) (lower w)} \<and>
         sc \<le> 7 \<and> sc \<le> occurrence_score s"
  using scored_sentences_score [OF assms] sentence_score_card [of s]
    sentence_score_le_7 [of s] sentence_score_le_occurrences [of s]
  by simp

theorem score_counts_terms_present_witness:
  "card {w \<in> set important_words. str_contains (lower ''a result of my result'') (lower w)} = 1 \<and>
   (1::nat) \<le> occurrence_score ''a result of my result''"
proof -
  have mem: "(1, ''a result of my result'') \<in> set (scored_sentences ''a result of my result.'')"
    unfolding scored_sentences_example by simp
  show ?thesis
    using score_counts_terms_present [OF mem] by simp
qed

section \<open>Key sentences\<close>

lemma tuple_less_trans: "tuple_less a b \<Longrightarrow> tuple_less b c \<Longrightarrow> tuple_less a c"
  by (auto simp: tuple_less_def)

lemma tuple_less_asym: "tuple_less a b \<Longrightarrow> \<not> tuple_less b a"
  by (auto simp: tuple_less_def)

lemma tuple_not_less_trans:
  "\<not> tuple_less a b \<Longrightarrow> \<not> tuple_less b c \<Longrightarrow> \<not> tuple_less a c"
  by (auto simp: tuple_less_def)

lemma set_insert_reverse: "set (insert_reverse x ys) = insert x (set ys)"
  by (induction ys) auto

lemma sorted_insert_reverse:
  "sorted_wrt (\<lambda>a b. \<not> tuple_less (sentence_key a) (sentence_key b)) ys \<Longrightarrow>
   sorted_wrt (\<lambda>a b. \<not> tuple_less (sentence_key a) (sentence_key b)) (insert_reverse x ys)"
proof (induction ys)
  case Nil
  show ?case by simp
next
  case (Cons y ys)
  show ?case
  proof (cases "tuple_less (sentence_key x) (sentence_key y)")
    case True
    then have "\<not> tuple_less (sentence_key y) (sentence_key x)" by (rule tuple_less_asym)
    then show ?thesis using True Cons by (auto simp: set_insert_reverse)
  next
    case False
    have "\<not> tuple_less (sentence_key x) (sentence_key z)" if "z \<in> set ys" for z
    proof -
      have "\<not> tuple_less (sentence_key y) (sentence_key z)"
        using Cons.prems that by simp
      with False show ?thesis by (rule tuple_not_less_trans)
    qed
    then show ?thesis using False Cons.prems by simp
  qed
qed

lemma set_sort_reverse: "set (sort_reverse xs) = set xs"
  by (induction xs) (simp_all add: sort_reverse_def set_insert_reverse)

lemma sorted_sort_reverse:
  "sorted_wrt (\<lambda>a b. \<not> tuple_less (sentence_key a) (sentence_key b)) (sort_reverse xs)"
  by (induction xs) (simp_all add: sort_reverse_def sorted_insert_reverse)

lemma startswith_lower: "startswith s sub \<Longrightarrow> startswith (lower s) (lower sub)"
proof -
  assume "startswith s sub"
  then have "take (length sub) s = sub" by (simp add: startswith_def)
  then have "map lower_char (take (length sub) s) = map lower_char sub" by simp
  then show ?thesis by (simp add: startswith_def lower_def take_map)
qed

lemma str_contains_lower: "str_contains s sub \<Longrightarrow> str_contains (lower s) (lower sub)"
proof (induction s)
  case Nil
  then show ?case by (simp add: lower_def)
next
  case (Cons c cs)
  then have "startswith (c # cs) sub \<or> str_contains cs sub" by simp
  then show ?case
  proof
    assume "startswith (c # cs) sub"
    then have "startswith (lower (c # cs)) (lower sub)" by (rule startswith_lower)
    then show ?thesis by (simp add: lower_def)
  next
    assume "str_contains cs sub"
    then have "str_contains (lower cs) (lower sub)" by (rule Cons.IH)
    then show ?thesis by (simp add: lower_def)
  qed
qed

lemma conclusion_scores:
  assumes "str_contains s ''conclusion''"
  shows "0 < sentence_score s"
proof -
  have "str_contains (lower s) (lower ''conclusion'')"
    using assms by (rule str_contains_lower)
  then have "''conclusion'' \<in> set (filter (\<lambda>word. str_contains (lower s) (lower word)) important_words)"
    by (simp add: important_words_def)
  then have "filter (\<lambda>word. str_contains (lower s) (lower word)) important_words \<noteq> []"
    by (metis empty_iff list.set(1))
  then show ?thesis by (simp add: sentence_score_def)
qed

lemma no_term_scores_zero:
  assumes "\<forall>w\<in>set important_words. \<not> str_contains (lower s) (lower w)"
  shows "sentence_score s = 0"
  using assms by (simp add: sentence_score_def)

lemma key_sentences_long: "s \<in> set (key_sentences t) \<Longrightarrow> \<exists>r. s = strip r \<and> 20 < length (strip r)"
  by (auto simp: key_sentences_def)

lemma dropWhile_idem: "dropWhile P (dropWhile P xs) = dropWhile P xs"
  by (induction xs) auto

lemma lstrip_head: "lstrip s = [] \<or> \<not> isspace (hd (lstrip s))"
  unfolding lstrip_def by (metis hd_dropWhile)

lemma strip_strip: "strip (strip r) = strip r"
proof -
  define a where "a = dropWhile isspace r"
  define b where "b = dropWhile isspace (rev a)"
  have s: "strip r = rev b"
    by (simp add: strip_def lstrip_def rstrip_def a_def b_def)
  have behind: "dropWhile isspace b = b"
    by (simp add: b_def dropWhile_idem)
  have front: "dropWhile isspace (rev b) = rev b"
  proof (cases "b = []")
    case True
    then show ?thesis by simp
  next
    case False
    then have "rev a \<noteq> []" by (auto simp: b_def)
    then have "a \<noteq> []" by simp
    then have "\<not> isspace (hd a)" unfolding a_def by (metis hd_dropWhile)
    moreover obtain pre where "rev a = pre @ b"
      unfolding b_def by (metis takeWhile_dropWhile_id)
    then have "a = rev b @ rev pre" by (metis rev_append rev_rev_ident)
    then have "hd a = hd (rev b)" using False by simp
    ultimately have "\<not> isspace (hd (rev b))" by simp
    then show ?thesis using False by (cases "rev b") auto
  qed
  show ?thesis
    unfolding s by (simp add: strip_def lstrip_def rstrip_def front behind)
qed


lemma scored_sentences_pair:
  "x \<in> set (scored_sentences t) \<Longrightarrow> fst x = sentence_score (snd x) \<and> snd x \<in> set (key_sentences t)"
  by (auto simp: scored_sentences_def)

lemma ranked_nth:
  assumes "i < length (extract_key_sentences t n)"
  shows "extract_key_sentences t n ! i = snd (sort_reverse (scored_sentences t) ! i) \<and>
         i < length (sort_reverse (scored_sentences t)) \<and>
         sort_reverse (scored_sentences t) ! i \<in> set (scored_sentences t)"
proof -
  define S where "S = sort_reverse (scored_sentences t)"
  define k where "k = slice_index (length S) n"
  have len: "i < length (take k S)"
    using assms by (simp add: extract_key_sentences_def py_slice_to_def S_def k_def)
  then have i: "i < length S" "i < k" by simp_all
  have "extract_key_sentences t n ! i = snd (take k S ! i)"
    using len by (simp add: extract_key_sentences_def py_slice_to_def S_def k_def)
  then have "extract_key_sentences t n ! i = snd (S ! i)" using i by simp
  moreover have "S ! i \<in> set (scored_sentences t)"
    using i(1) nth_mem [of i S] by (simp add: S_def set_sort_reverse)
  ultimately show ?thesis using i(1) by (simp add: S_def)
qed

lemma extract_key_sentences_subset:
  "set (extract_key_sentences t n) \<subseteq> set (key_sentences t)"
proof
  fix s assume "s \<in> set (extract_key_sentences t n)"
  then obtain i where i: "i < length (extract_key_sentences t n)" "s = extract_key_sentences t n ! i"
    by (metis in_set_conv_nth)
  from ranked_nth [OF i(1)] scored_sentences_pair [of "sort_reverse (scored_sentences t) ! i" t]
  show "s \<in> set (key_sentences t)" using i(2) by simp
qed

lemma length_insert_reverse: "length (insert_reverse x ys) = Suc (length ys)"
  by (induction ys) auto

lemma length_sort_reverse: "length (sort_reverse xs) = length xs"
  by (induction xs) (simp_all add: sort_reverse_def length_insert_reverse)

lemma extract_key_sentences_prefix:
  "extract_key_sentences t (int n) =
     take n (extract_key_sentences t (int (length (key_sentences t))))"
proof -
  define S where "S = sort_reverse (scored_sentences t)"
  have len: "length S = length (key_sentences t)"
    by (simp add: S_def length_sort_reverse scored_sentences_def)
  have part: "extract_key_sentences t (int n) = map snd (take n S)"
    by (simp add: extract_key_sentences_def py_slice_to_def slice_index_def S_def [symmetric] min_def)
  have full: "extract_key_sentences t (int (length (key_sentences t))) = map snd S"
    by (simp add: extract_key_sentences_def py_slice_to_def slice_index_def S_def [symmetric] len)
  show ?thesis
    unfolding part full by (simp add: take_map)
qed

lemma conclusion_before_plain:
  assumes a: "a \<in> set (key_sentences t)" "str_contains a ''conclusion''"
      and j: "j < length (extract_key_sentences t n)"
             "\<forall>w\<in>set important_words. \<not> str_contains (lower (extract_key_sentences t n ! j)) (lower w)"
  shows "\<exists>i<j. extract_key_sentences t n ! i = a"
proof -
  define R where "R = extract_key_sentences t n"
  define S where "S = sort_reverse (scored_sentences t)"
  have "(sentence_score a, a) \<in> set S"
    using a(1) by (simp add: S_def set_sort_reverse scored_sentences_def)
  then obtain p where p: "p < length S" "S ! p = (sentence_score a, a)"
    by (metis in_set_conv_nth)
  have hi: "0 < fst (S ! p)"
    using conclusion_scores [OF a(2)] p(2) by simp
  have sj: "R ! j = snd (S ! j)" "j < length S" "fst (S ! j) = sentence_score (snd (S ! j))"
    using ranked_nth [OF j(1)] scored_sentences_pair [of "S ! j" t] by (simp_all add: R_def S_def)
  have lo: "fst (S ! j) = 0"
    using no_term_scores_zero [of "R ! j"] j(2) sj by (simp add: R_def)
  have less: "tuple_less (sentence_key (S ! j)) (sentence_key (S ! p))"
    using hi lo by (simp add: tuple_less_def sentence_key_def)
  have sorted: "sorted_wrt (\<lambda>x y. \<not> tuple_less (sentence_key x) (sentence_key y)) S"
    unfolding S_def by (rule sorted_sort_reverse)
  have "p < j"
  proof (rule ccontr)
    assume "\<not> p < j"
    then consider "p = j" | "j < p" by linarith
    then show False
    proof cases
      case 1
      then show ?thesis using hi lo by simp
    next
      case 2
      have "\<not> tuple_less (sentence_key (S ! j)) (sentence_key (S ! p))"
        using sorted 2 p(1) by (rule sorted_wrt_nth_less)
      with less show ?thesis by simp
    qed
  qed
  moreover have "p < length R" using \<open>p < j\<close> j(1) by (simp add: R_def)
  then have "R ! p = snd (S ! p)"
    using ranked_nth [of p t n] by (simp add: R_def S_def)
  then have "R ! p = a" using p(2) by simp
  ultimately show ?thesis unfolding R_def by blast
qed

text \<open>
  Claim C9: for every text and every count \<open>n\<close>, \<open>extract_key_sentences(text, n)\<close> returns
  at most \<open>n\<close> sentences; every returned sentence has more than 20 characters after
  trimming, hence at least 20; and a sentence of the text that contains \<open>conclusion\<close> is
  ranked before a sentence that contains no term of the vocabulary, whatever their lengths:
  wherever such a plain sentence is returned, every key sentence with \<open>conclusion\<close> is
  returned at an earlier position. The result is the first \<open>n\<close> sentences of the ranking
  of all key sentences.
\<close>

theorem extract_key_sentences_top_n:
  "length (extract_key_sentences t (int n)) \<le> n \<and>
   (\<forall>s\<in>set (extract_key_sentences t (int n)). 20 < length (strip s)) \<and>
   (\<forall>a\<in>set (key_sentences t). \<forall>j<length (extract_key_sentences t (int n)).
      str_contains a ''conclusion'' \<and>
      (\<forall>w\<in>set important_words.
          \<not> str_contains (lower (extract_key_sentences t (int n) ! j)) (lower w))
      \<longrightarrow> (\<exists>i<j. extract_key_sentences t (int n) ! i = a)) \<and>
   extract_key_sentences t (int n) =
     take n (extract_key_sentences t (int (length (key_sentences t))))"
proof (intro conjI ballI allI impI)
  show "length (extract_key_sentences t (int n)) \<le> n"
    using py_slice_to_length [of "int n" "sort_reverse (scored_sentences t)"]
    by (simp add: extract_key_sentences_def)
next
  fix s assume "s \<in> set (extract_key_sentences t (int n))"
  then have "s \<in> set (key_sentences t)"
    using extract_key_sentences_subset by blast
  then obtain r where "s = strip r" "20 < length (strip r)"
    using key_sentences_long by blast
  then show "20 < length (strip s)" by (simp add: strip_strip)
next
  fix a j
  assume "a \<in> set (key_sentences t)" and "j < length (extract_key_sentences t (int n))"
     and "str_contains a ''conclusion'' \<and>
      (\<forall>w\<in>set important_words.
          \<not> str_contains (lower (extract_key_sentences t (int n) ! j)) (lower w))"
  then show "\<exists>i<j. extract_key_sentences t (int n) ! i = a"
    using conclusion_before_plain [of a t j "int n"] by blast
next
  show "extract_key_sentences t (int n) =
     take n (extract_key_sentences t (int (length (key_sentences t))))"
    by (rule extract_key_sentences_prefix)
qed

lemma key_sentences_example:
  "key_sentences ''This one is plain text. In conclusion we are done.''
     = [''This one is plain text'', ''In conclusion we are done'']"
  by code_simp

lemma extract_two_example:
  "extract_key_sentences ''This one is plain text. In conclusion we are done.'' 2
     = [''In conclusion we are done'', ''This one is plain text'']"
  by code_simp

lemma extract_one_example:
  "extract_key_sentences ''This one is plain text. In conclusion we are done.'' 1
     = [''In conclusion we are done'']"
  by code_simp

lemma conclusion_example: "str_contains ''In conclusion we are done'' ''conclusion''"
  by code_simp

lemma plain_example:
  "\<forall>w\<in>set important_words. \<not> str_contains (lower ''This one is plain text'') (lower w)"
  by code_simp

theorem extract_key_sentences_top_n_witness:
  "extract_key_sentences ''This one is plain text. In conclusion we are done.'' 2
     = [''In conclusion we are done'', ''This one is plain text''] \<and>
   extract_key_sentences ''This one is plain text. In conclusion we are done.'' 1
     = [''In conclusion we are done''] \<and>
   length (extract_key_sentences ''This one is plain text. In conclusion we are done.'' 2) \<le> 2 \<and>
   (\<exists>i<1. extract_key_sentences ''This one is plain text. In conclusion we are done.'' 2 ! i
            = ''In conclusion we are done'')"
proof -
  define T where "T = ''This one is plain text. In conclusion we are done.''"
  have two: "extract_key_sentences T (int 2) = [''In conclusion we are done'', ''This one is plain text'']"
    unfolding T_def using extract_two_example by simp
  have mem: "''In conclusion we are done'' \<in> set (key_sentences T)"
    unfolding T_def key_sentences_example by simp
  have j: "(1::nat) < length (extract_key_sentences T (int 2))"
    unfolding two by simp
  have plain: "\<forall>w\<in>set important_words.
      \<not> str_contains (lower (extract_key_sentences T (int 2) ! 1)) (lower w)"
    unfolding two using plain_example by simp
  have all: "length (extract_key_sentences T (int 2)) \<le> 2 \<and>
     (\<forall>a\<in>set (key_sentences T). \<forall>j<length (extract_key_sentences T (int 2)).
        str_contains a ''conclusion'' \<and>
        (\<forall>w\<in>set important_words.
            \<not> str_contains (lower (extract_key_sentences T (int 2) ! j)) (lower w))
        \<longrightarrow> (\<exists>i<j. extract_key_sentences T (int 2) ! i = a))"
    using extract_key_sentences_top_n [of T 2] by blast
  then have "\<exists>i<1. extract_key_sentences T (int 2) ! i = ''In conclusion we are done''"
    using mem j plain conclusion_example by blast
  moreover have "length (extract_key_sentences T (int 2)) \<le> 2"
    using all by blast
  ultimately show ?thesis
    using extract_two_example extract_one_example unfolding T_def by simp
qed

end
